theory Spec2Isabelle
  imports Main
begin

section \<open>Data model\<close>

text \<open>
  Modelled from the spec: the declarations of \<open>AIConfig\<close> and \<open>LinkItem\<close> live in
  \<open>../types\<close>, which is not among the sources. The spec gives \<open>AIConfig\<close> the four
  string-valued fields below (\<open>handleChange\<close> writes a string into any of them) and
  \<open>LinkItem\<close> an identifier, a title, a url and an optional description. \<open>LinkItem\<close> is
  used through its extensible scheme, so that whatever further fields the real
  declaration carries are covered by the record's \<open>more\<close> part.
\<close>

record AIConfig =
  provider :: string
  apiKey :: string
  baseUrl :: string
  model :: string

text \<open>\<open>keyof AIConfig\<close>.\<close>

datatype config_key = Provider | ApiKey | BaseUrl | Model

record LinkItem =
  id_link :: string
  title :: string
  url :: string
  description :: "string option"

text \<open>The \<open>progress\<close> state, \<open>{ current, total }\<close>.\<close>

record BatchProgress =
  current :: nat
  total_n :: nat

text \<open>
  The two \<open>alert\<close> texts (their wording is not ASCII and plays no role) and every call
  the component makes to the outside, in the order it makes them: the user-facing
  prompts, the generation service, the owner's callbacks, the console, and the two React
  state setters of the batch.
\<close>

datatype notice = MissingApiKey | NoMissingDescriptions

datatype 'a call =
    Alert notice
  | Confirm nat
  | GenerateLinkDescription string string AIConfig
  | OnUpdateLinks "'a LinkItem_scheme list"
  | ConsoleError string
  | OnSave AIConfig
  | OnClose
  | SetIsProcessing bool
  | SetProgress BatchProgress

text \<open>
  The component: its props (\<open>isOpen\<close>, \<open>config\<close>, \<open>links\<close>), its state
  (\<open>localConfig\<close>, \<open>isProcessing\<close>, \<open>progress\<close>), the ref \<open>shouldStopRef.current\<close>, and the
  log of the calls made so far.
\<close>

record 'a modal =
  isOpen :: bool
  config :: AIConfig
  links :: "'a LinkItem_scheme list"
  localConfig :: AIConfig
  isProcessing :: bool
  progress :: BatchProgress
  shouldStop :: bool
  calls :: "'a call list"

text \<open>
  \<open>generateLinkDescription\<close> is imported from \<open>../services/geminiService\<close>, an external
  collaborator that is not among the sources: what it returns is a parameter of the
  model. The environment says, for the call made at each loop index, what happens while
  the \<open>await\<close> is pending: the call resolves with a description or throws, and the user
  may have pressed the stop button meanwhile (the only moment at which \<open>handleStop\<close> can
  run during a batch, the loop being suspended nowhere else).
\<close>

datatype gen_result = Resolves string | Throws

type_synonym environment = "nat \<Rightarrow> gen_result \<times> bool"

abbreviation outcome :: "environment \<Rightarrow> nat \<Rightarrow> gen_result" where
  "outcome env i \<equiv> fst (env i)"

abbreviation stopPressed :: "environment \<Rightarrow> nat \<Rightarrow> bool" where
  "stopPressed env i \<equiv> snd (env i)"

section \<open>Operations\<close>

definition logCall :: "'a call \<Rightarrow> 'a modal \<Rightarrow> 'a modal" where
  "logCall c m = m\<lparr>calls := calls m @ [c]\<rparr>"

definition setIsProcessing :: "bool \<Rightarrow> 'a modal \<Rightarrow> 'a modal" where
  "setIsProcessing b m = logCall (SetIsProcessing b) (m\<lparr>isProcessing := b\<rparr>)"

definition setProgress :: "BatchProgress \<Rightarrow> 'a modal \<Rightarrow> 'a modal" where
  "setProgress p m = logCall (SetProgress p) (m\<lparr>progress := p\<rparr>)"

text \<open>The body of the effect on \<open>[isOpen, config]\<close>.\<close>

definition useEffect :: "'a modal \<Rightarrow> 'a modal" where
  "useEffect m =
     (if isOpen m then
        (setProgress \<lparr>current = 0, total_n = 0\<rparr>
          (setIsProcessing False (m\<lparr>localConfig := config m\<rparr>)))\<lparr>shouldStop := False\<rparr>
      else m)"

text \<open>
  The owner renders the component with new props. React runs the effect when a
  dependency changed: \<open>isOpen\<close> by value, \<open>config\<close> by object identity, which the owner
  decides (\<open>configChanged\<close>).
\<close>

definition rerender :: "bool \<Rightarrow> bool \<Rightarrow> AIConfig \<Rightarrow> 'a modal \<Rightarrow> 'a modal" where
  "rerender configChanged isOpen' config' m =
     (let m' = m\<lparr>isOpen := isOpen', config := config'\<rparr>
      in if isOpen' \<noteq> isOpen m \<or> configChanged then useEffect m' else m')"

text \<open>\<open>prev[key]\<close> and \<open>{ ...prev, [key]: value }\<close>.\<close>

fun getField :: "config_key \<Rightarrow> AIConfig \<Rightarrow> string" where
  "getField Provider c = provider c"
| "getField ApiKey c = apiKey c"
| "getField BaseUrl c = baseUrl c"
| "getField Model c = model c"

fun spreadField :: "config_key \<Rightarrow> string \<Rightarrow> AIConfig \<Rightarrow> AIConfig" where
  "spreadField Provider v prev = prev\<lparr>provider := v\<rparr>"
| "spreadField ApiKey v prev = prev\<lparr>apiKey := v\<rparr>"
| "spreadField BaseUrl v prev = prev\<lparr>baseUrl := v\<rparr>"
| "spreadField Model v prev = prev\<lparr>model := v\<rparr>"

definition handleChange :: "config_key \<Rightarrow> string \<Rightarrow> 'a modal \<Rightarrow> 'a modal" where
  "handleChange key v m = m\<lparr>localConfig := spreadField key v (localConfig m)\<rparr>"

definition handleSave :: "'a modal \<Rightarrow> 'a modal" where
  "handleSave m = logCall OnClose (logCall (OnSave (localConfig m)) m)"

text \<open>The close button and the cancel button: \<open>onClick={onClose}\<close>.\<close>

definition cancelClick :: "'a modal \<Rightarrow> 'a modal" where
  "cancelClick m = logCall OnClose m"

definition handleStop :: "'a modal \<Rightarrow> 'a modal" where
  "handleStop m = setIsProcessing False (m\<lparr>shouldStop := True\<rparr>)"

text \<open>\<open>!l.description\<close>: the description is undefined or the empty string.\<close>

definition lacksDescription :: "'a LinkItem_scheme \<Rightarrow> bool" where
  "lacksDescription l = (case description l of None \<Rightarrow> True | Some d \<Rightarrow> d = [])"

text \<open>
  \<open>currentLinks.map(l => l.id === link.id ? { ...l, description: desc } : l)\<close>
\<close>

definition fillDescription ::
  "'a LinkItem_scheme \<Rightarrow> string \<Rightarrow> 'a LinkItem_scheme list \<Rightarrow> 'a LinkItem_scheme list" where
  "fillDescription link desc currentLinks =
     map (\<lambda>l. if id_link l = id_link link then l\<lparr>description := Some desc\<rparr> else l) currentLinks"

text \<open>
  One pass through the body of the \<open>for\<close> loop, after the stop check, at index \<open>i\<close>: the
  call is issued, the world moves while it is pending, and the \<open>try\<close> continues or the
  \<open>catch\<close> logs.
\<close>

definition iteration ::
  "environment \<Rightarrow> AIConfig \<Rightarrow> 'a LinkItem_scheme list \<Rightarrow> nat \<Rightarrow>
   'a LinkItem_scheme list \<times> 'a modal \<Rightarrow> 'a LinkItem_scheme list \<times> 'a modal" where
  "iteration env cfg missingLinks i s =
     (let currentLinks = fst s;
          link = missingLinks ! i;
          m1 = logCall (GenerateLinkDescription (title link) (url link) cfg) (snd s);
          m2 = (if stopPressed env i then handleStop m1 else m1)
      in case outcome env i of
           Resolves desc \<Rightarrow>
             (let currentLinks' = fillDescription link desc currentLinks
              in (currentLinks',
                  setProgress \<lparr>current = i + 1, total_n = length missingLinks\<rparr>
                    (logCall (OnUpdateLinks currentLinks') m2)))
         | Throws \<Rightarrow> (currentLinks, logCall (ConsoleError (title link)) m2))"

function bulk_loop ::
  "environment \<Rightarrow> AIConfig \<Rightarrow> 'a LinkItem_scheme list \<Rightarrow> nat \<Rightarrow>
   'a LinkItem_scheme list \<times> 'a modal \<Rightarrow> 'a LinkItem_scheme list \<times> 'a modal" where
  "bulk_loop env cfg missingLinks i s =
     (if i < length missingLinks then
        (if shouldStop (snd s) then s
         else bulk_loop env cfg missingLinks (i + 1) (iteration env cfg missingLinks i s))
      else s)"
  by pat_completeness auto
termination
  by (relation "measure (\<lambda>(env, cfg, missingLinks, i, s). length missingLinks - i)") auto

definition handleBulkGenerate :: "environment \<Rightarrow> bool \<Rightarrow> 'a modal \<Rightarrow> 'a modal" where
  "handleBulkGenerate env confirmed m =
     (if apiKey (localConfig m) = [] then logCall (Alert MissingApiKey) m
      else
        (let missingLinks = filter lacksDescription (links m)
         in if length missingLinks = 0 then logCall (Alert NoMissingDescriptions) m
            else if \<not> confirmed then logCall (Confirm (length missingLinks)) m
            else
              (let m1 = setIsProcessing True (logCall (Confirm (length missingLinks)) m);
                   m2 = m1\<lparr>shouldStop := False\<rparr>;
                   m3 = setProgress \<lparr>current = 0, total_n = length missingLinks\<rparr> m2;
                   s = bulk_loop env (localConfig m) missingLinks 0 (links m, m3)
               in setIsProcessing False (snd s))))"

section \<open>Observations on the call log\<close>

fun publishes :: "'a call list \<Rightarrow> 'a LinkItem_scheme list list" where
  "publishes [] = []"
| "publishes (OnUpdateLinks c # cs) = c # publishes cs"
| "publishes (_ # cs) = publishes cs"

fun generations :: "'a call list \<Rightarrow> (string \<times> string \<times> AIConfig) list" where
  "generations [] = []"
| "generations (GenerateLinkDescription t u c # cs) = (t, u, c) # generations cs"
| "generations (_ # cs) = generations cs"

fun saves :: "'a call list \<Rightarrow> AIConfig list" where
  "saves [] = []"
| "saves (OnSave c # cs) = c # saves cs"
| "saves (_ # cs) = saves cs"

text \<open>What a handler added to the log.\<close>

definition newCalls :: "'a modal \<Rightarrow> 'a modal \<Rightarrow> 'a call list" where
  "newCalls m r = drop (length (calls m)) (calls r)"

text \<open>The collection as the owner holds it once it has taken every copy published since.\<close>

definition ownerLinks :: "'a modal \<Rightarrow> 'a modal \<Rightarrow> 'a LinkItem_scheme list" where
  "ownerLinks m r = last (links m # publishes (newCalls m r))"

text \<open>
  The progress values that were set, each with the number of publishes made before it
  (counted from \<open>k\<close>).
\<close>

fun progressLog :: "nat \<Rightarrow> 'a call list \<Rightarrow> (nat \<times> BatchProgress) list" where
  "progressLog k [] = []"
| "progressLog k (OnUpdateLinks c # cs) = progressLog (Suc k) cs"
| "progressLog k (SetProgress p # cs) = (k, p) # progressLog k cs"
| "progressLog k (_ # cs) = progressLog k cs"

section \<open>What a run amounts to\<close>

text \<open>
  The number of targets a run of \<open>n\<close> targets attempts: all of them, or, when stop is
  pressed for the first time while target \<open>k\<close> is in flight, the first \<open>k + 1\<close>.
\<close>

definition attempts :: "environment \<Rightarrow> nat \<Rightarrow> nat" where
  "attempts env n = (case find (\<lambda>j. stopPressed env j) [0..<n] of None \<Rightarrow> n | Some k \<Rightarrow> k + 1)"

fun isResolved :: "gen_result \<Rightarrow> bool" where
  "isResolved (Resolves d) = True"
| "isResolved Throws = False"

text \<open>The targets among the first \<open>n\<close> whose call resolved, each with its description.\<close>

definition successes ::
  "environment \<Rightarrow> 'a LinkItem_scheme list \<Rightarrow> nat \<Rightarrow> ('a LinkItem_scheme \<times> string) list" where
  "successes env ml n =
     concat (map (\<lambda>j. case outcome env j of Resolves d \<Rightarrow> [(ml ! j, d)] | Throws \<Rightarrow> []) [0..<n])"

text \<open>The successive collections obtained by filling the descriptions in, one at a time.\<close>

fun snapshots ::
  "('a LinkItem_scheme \<times> string) list \<Rightarrow> 'a LinkItem_scheme list \<Rightarrow>
   'a LinkItem_scheme list list" where
  "snapshots [] cl = []"
| "snapshots ((l, d) # xs) cl = fillDescription l d cl # snapshots xs (fillDescription l d cl)"

text \<open>The calls of the iteration at index \<open>i\<close>, entered with working copy \<open>cl\<close>.\<close>

definition iterationCalls ::
  "environment \<Rightarrow> AIConfig \<Rightarrow> 'a LinkItem_scheme list \<Rightarrow> nat \<Rightarrow> 'a LinkItem_scheme list \<Rightarrow>
   'a call list" where
  "iterationCalls env cfg ml i cl =
     GenerateLinkDescription (title (ml ! i)) (url (ml ! i)) cfg #
     (if stopPressed env i then [SetIsProcessing False] else []) @
     (case outcome env i of
        Resolves d \<Rightarrow>
          [OnUpdateLinks (fillDescription (ml ! i) d cl),
           SetProgress \<lparr>current = i + 1, total_n = length ml\<rparr>]
      | Throws \<Rightarrow> [ConsoleError (title (ml ! i))])"

text \<open>The state in which the loop is entered, the confirmation accepted.\<close>

definition batchStart :: "'a modal \<Rightarrow> 'a modal" where
  "batchStart m =
     (let n = length (filter lacksDescription (links m))
      in setProgress \<lparr>current = 0, total_n = n\<rparr>
           ((setIsProcessing True (logCall (Confirm n) m))\<lparr>shouldStop := False\<rparr>))"

text \<open>The calls of the first \<open>n\<close> iterations, the loop entered with working copy \<open>cl\<close>.\<close>

definition loopCalls ::
  "environment \<Rightarrow> AIConfig \<Rightarrow> 'a LinkItem_scheme list \<Rightarrow> 'a LinkItem_scheme list \<Rightarrow> nat \<Rightarrow>
   'a call list" where
  "loopCalls env cfg ml cl n =
     concat (map (\<lambda>j. iterationCalls env cfg ml j
                        (fold (\<lambda>(l, d). fillDescription l d) (successes env ml j) cl)) [0..<n])"

text \<open>The function mapped over the working copy by \<open>fillDescription\<close>.\<close>

definition fillItem ::
  "'a LinkItem_scheme \<Rightarrow> string \<Rightarrow> 'a LinkItem_scheme \<Rightarrow> 'a LinkItem_scheme" where
  "fillItem link desc l = (if id_link l = id_link link then l\<lparr>description := Some desc\<rparr> else l)"

section \<open>Concrete inputs\<close>

text \<open>
  A dialog opened on a collection of three links, of which \<open>A\<close> and \<open>B\<close> lack a
  description; the draft carries an API key that the owner's committed config has not.
\<close>

definition draftCfg :: AIConfig where
  "draftCfg = \<lparr>provider = ''gemini'', apiKey = ''key'', baseUrl = [], model = ''flash''\<rparr>"

definition ownerCfg :: AIConfig where
  "ownerCfg = \<lparr>provider = ''gemini'', apiKey = [], baseUrl = [], model = []\<rparr>"

definition linkA :: LinkItem where
  "linkA = \<lparr>id_link = ''a'', title = ''A'', url = ''http://a'', description = None\<rparr>"

definition linkB :: LinkItem where
  "linkB = \<lparr>id_link = ''b'', title = ''B'', url = ''http://b'', description = None\<rparr>"

definition linkC :: LinkItem where
  "linkC = \<lparr>id_link = ''c'', title = ''C'', url = ''http://c'', description = Some ''old''\<rparr>"

definition modalAB :: "unit modal" where
  "modalAB =
     \<lparr>isOpen = True, config = ownerCfg, links = [linkA, linkC, linkB], localConfig = draftCfg,
      isProcessing = False, progress = \<lparr>current = 0, total_n = 0\<rparr>, shouldStop = False,
      calls = []\<rparr>"

text \<open>Every call resolves and nobody presses stop.\<close>

definition envOk :: environment where
  "envOk i = (Resolves (if i = 0 then ''dA'' else ''dB''), False)"

text \<open>The call for \<open>A\<close> resolves, the call for \<open>B\<close> throws, and nobody presses stop.\<close>

definition envAB :: environment where
  "envAB i = (if i = 0 then (Resolves ''dA'', False) else (Throws, False))"

text \<open>The call for \<open>A\<close> throws, the call for \<open>B\<close> resolves, and nobody presses stop.\<close>

definition envBA :: environment where
  "envBA i = (if i = 0 then (Throws, False) else (Resolves ''dB'', False))"


section \<open>The loop, iteration by iteration\<close>

declare bulk_loop.simps [simp del]

lemma publishes_append: "publishes (xs @ ys) = publishes xs @ publishes ys"
  by (induction xs rule: publishes.induct) simp_all

lemma generations_append: "generations (xs @ ys) = generations xs @ generations ys"
  by (induction xs rule: generations.induct) simp_all

lemma saves_append: "saves (xs @ ys) = saves xs @ saves ys"
  by (induction xs rule: saves.induct) simp_all

lemma progressLog_append:
  "progressLog k (xs @ ys) = progressLog k xs @ progressLog (k + length (publishes xs)) ys"
  by (induction k xs rule: progressLog.induct) simp_all

lemma successes_0: "successes env ml 0 = []"
  by (simp add: successes_def)

lemma successes_Suc:
  "successes env ml (Suc n) =
     successes env ml n @ (case outcome env n of Resolves d \<Rightarrow> [(ml ! n, d)] | Throws \<Rightarrow> [])"
  by (simp add: successes_def)

lemma snapshots_snoc:
  "snapshots (xs @ [(l, d)]) cl =
     snapshots xs cl @ [fillDescription l d (fold (\<lambda>(l, d). fillDescription l d) xs cl)]"
  by (induction xs arbitrary: cl) auto

lemma length_snapshots: "length (snapshots xs cl) = length xs"
  by (induction xs arbitrary: cl) auto

subsection \<open>One iteration\<close>

lemma iteration_fst:
  "fst (iteration env cfg ml i s) =
     (case outcome env i of Resolves d \<Rightarrow> fillDescription (ml ! i) d (fst s) | Throws \<Rightarrow> fst s)"
  by (simp add: iteration_def Let_def split: gen_result.split)

lemma iteration_shouldStop:
  "shouldStop (snd (iteration env cfg ml i s)) = (shouldStop (snd s) \<or> stopPressed env i)"
  by (simp add: iteration_def Let_def handleStop_def setIsProcessing_def setProgress_def
      logCall_def split: gen_result.split)

lemma iteration_progress:
  "progress (snd (iteration env cfg ml i s)) =
     (case outcome env i of Resolves d \<Rightarrow> \<lparr>current = i + 1, total_n = length ml\<rparr>
      | Throws \<Rightarrow> progress (snd s))"
  by (simp add: iteration_def Let_def handleStop_def setIsProcessing_def setProgress_def
      logCall_def split: gen_result.split)

lemma iteration_calls:
  "calls (snd (iteration env cfg ml i s)) = calls (snd s) @ iterationCalls env cfg ml i (fst s)"
  by (simp add: iteration_def iterationCalls_def Let_def handleStop_def setIsProcessing_def
      setProgress_def logCall_def split: gen_result.split)

lemma publishes_iterationCalls:
  "publishes (iterationCalls env cfg ml i cl) =
     (case outcome env i of Resolves d \<Rightarrow> [fillDescription (ml ! i) d cl] | Throws \<Rightarrow> [])"
  by (simp add: iterationCalls_def split: gen_result.split)

lemma generations_iterationCalls:
  "generations (iterationCalls env cfg ml i cl) = [(title (ml ! i), url (ml ! i), cfg)]"
  by (simp add: iterationCalls_def split: gen_result.split)

lemma saves_iterationCalls: "saves (iterationCalls env cfg ml i cl) = []"
  by (simp add: iterationCalls_def split: gen_result.split)

lemma progressLog_iterationCalls:
  "progressLog k (iterationCalls env cfg ml i cl) =
     (case outcome env i of
        Resolves d \<Rightarrow> [(Suc k, \<lparr>current = i + 1, total_n = length ml\<rparr>)]
      | Throws \<Rightarrow> [])"
  by (simp add: iterationCalls_def split: gen_result.split)

subsection \<open>The first n iterations\<close>

lemma run_fst:
  "fst (fold (iteration env cfg ml) [0..<n] s) =
     fold (\<lambda>(l, d). fillDescription l d) (successes env ml n) (fst s)"
  by (induction n) (simp_all add: successes_0 successes_Suc iteration_fst split: gen_result.split)

lemma run_shouldStop:
  "shouldStop (snd (fold (iteration env cfg ml) [i..<n] s)) =
     (shouldStop (snd s) \<or> (\<exists>j. i \<le> j \<and> j < n \<and> stopPressed env j))"
proof (induction n)
  case 0
  then show ?case by simp
next
  case (Suc n)
  show ?case
  proof (cases "i \<le> n")
    case True
    then show ?thesis using Suc by (auto simp: iteration_shouldStop less_Suc_eq)
  next
    case False
    then show ?thesis by auto
  qed
qed

subsection \<open>The loop\<close>

lemma bulk_loop_stopped: "shouldStop (snd s) \<Longrightarrow> bulk_loop env cfg ml i s = s"
  by (simp add: bulk_loop.simps)

lemma bulk_loop_exhausted: "length ml \<le> i \<Longrightarrow> bulk_loop env cfg ml i s = s"
  by (simp add: bulk_loop.simps)

lemma bulk_loop_steps:
  assumes "i \<le> n" and "n \<le> length ml" and "\<not> shouldStop (snd s)"
    and "\<forall>j. i \<le> j \<and> j < n \<longrightarrow> \<not> stopPressed env j"
  shows "bulk_loop env cfg ml i s = bulk_loop env cfg ml n (fold (iteration env cfg ml) [i..<n] s)"
  using assms
proof (induction n rule: dec_induct)
  case base
  then show ?case by simp
next
  case (step n)
  have run: "\<not> shouldStop (snd (fold (iteration env cfg ml) [i..<n] s))"
    using step.prems by (simp add: run_shouldStop)
  have "bulk_loop env cfg ml i s = bulk_loop env cfg ml n (fold (iteration env cfg ml) [i..<n] s)"
    using step by simp
  also have "\<dots> = bulk_loop env cfg ml (Suc n) (fold (iteration env cfg ml) [i..<Suc n] s)"
    using step.hyps step.prems(1) run by (subst bulk_loop.simps) simp
  finally show ?case .
qed

lemma attempts_le: "attempts env n \<le> n"
  by (auto simp: attempts_def find_Some_iff split: option.split)

lemma attempts_no_stop: "\<forall>j<n. \<not> stopPressed env j \<Longrightarrow> attempts env n = n"
  by (auto simp: attempts_def find_Some_iff split: option.split)

lemma attempts_stop:
  assumes "k < n" and "stopPressed env k" and "\<forall>j<k. \<not> stopPressed env j"
  shows "attempts env n = k + 1"
proof -
  have "find (\<lambda>j. stopPressed env j) [0..<n] = Some k"
    unfolding find_Some_iff using assms by (intro exI [of _ k]) simp
  then show ?thesis by (simp add: attempts_def)
qed

lemma bulk_loop_run:
  assumes "\<not> shouldStop (snd s)"
  shows "bulk_loop env cfg ml 0 s = fold (iteration env cfg ml) [0..<attempts env (length ml)] s"
proof (cases "find (\<lambda>j. stopPressed env j) [0..<length ml]")
  case None
  then have ns: "\<forall>j<length ml. \<not> stopPressed env j" by (auto simp: find_None_iff)
  then have "bulk_loop env cfg ml 0 s =
      bulk_loop env cfg ml (length ml) (fold (iteration env cfg ml) [0..<length ml] s)"
    using assms by (intro bulk_loop_steps) auto
  then show ?thesis using ns by (simp add: bulk_loop_exhausted attempts_no_stop)
next
  case (Some k)
  then have k: "k < length ml" "stopPressed env k" "\<forall>j<k. \<not> stopPressed env j"
    by (auto simp: find_Some_iff)
  have "bulk_loop env cfg ml 0 s = bulk_loop env cfg ml k (fold (iteration env cfg ml) [0..<k] s)"
    using assms k by (intro bulk_loop_steps) auto
  also have "\<dots> = bulk_loop env cfg ml (Suc k) (fold (iteration env cfg ml) [0..<Suc k] s)"
    using assms k by (subst bulk_loop.simps) (auto simp: run_shouldStop)
  also have "\<dots> = fold (iteration env cfg ml) [0..<Suc k] s"
    using k by (intro bulk_loop_stopped) (simp add: iteration_shouldStop)
  finally show ?thesis using k by (simp add: attempts_stop)
qed

subsection \<open>The calls of a run\<close>

lemma loopCalls_0: "loopCalls env cfg ml cl 0 = []"
  by (simp add: loopCalls_def)

lemma loopCalls_Suc:
  "loopCalls env cfg ml cl (Suc n) =
     loopCalls env cfg ml cl n @
     iterationCalls env cfg ml n (fold (\<lambda>(l, d). fillDescription l d) (successes env ml n) cl)"
  by (simp add: loopCalls_def)

lemma run_calls:
  "calls (snd (fold (iteration env cfg ml) [0..<n] s)) =
     calls (snd s) @ loopCalls env cfg ml (fst s) n"
  by (induction n) (simp_all add: loopCalls_0 loopCalls_Suc iteration_calls run_fst)

lemma publishes_loopCalls:
  "publishes (loopCalls env cfg ml cl n) = snapshots (successes env ml n) cl"
  by (induction n)
    (simp_all add: loopCalls_0 loopCalls_Suc successes_0 successes_Suc publishes_append
      publishes_iterationCalls snapshots_snoc split: gen_result.split)

lemma generations_loopCalls:
  "n \<le> length ml \<Longrightarrow>
   generations (loopCalls env cfg ml cl n) = map (\<lambda>l. (title l, url l, cfg)) (take n ml)"
  by (induction n)
    (simp_all add: loopCalls_0 loopCalls_Suc generations_append generations_iterationCalls
      take_Suc_conv_app_nth)

lemma saves_loopCalls: "saves (loopCalls env cfg ml cl n) = []"
  by (induction n) (simp_all add: loopCalls_0 loopCalls_Suc saves_append saves_iterationCalls)

lemma successes_all_resolved:
  "\<forall>j<n. isResolved (outcome env j) \<Longrightarrow> length (successes env ml n) = n"
proof (induction n)
  case 0
  then show ?case by (simp add: successes_0)
next
  case (Suc n)
  then have "isResolved (outcome env n)" by simp
  then obtain d where "outcome env n = Resolves d" by (cases "outcome env n") simp_all
  then show ?case using Suc by (simp add: successes_Suc)
qed

lemma length_successes:
  "length (successes env ml n) = length (filter (\<lambda>j. isResolved (outcome env j)) [0..<n])"
  by (induction n) (simp_all add: successes_0 successes_Suc split: gen_result.split)

lemma progressLog_loopCalls:
  "\<forall>j<n. isResolved (outcome env j) \<Longrightarrow>
   progressLog k (loopCalls env cfg ml cl n) =
     map (\<lambda>j. (k + Suc j, \<lparr>current = Suc j, total_n = length ml\<rparr>)) [0..<n]"
proof (induction n)
  case 0
  then show ?case by (simp add: loopCalls_0)
next
  case (Suc n)
  then have "isResolved (outcome env n)" by simp
  then obtain d where "outcome env n = Resolves d" by (cases "outcome env n") simp_all
  moreover have "length (successes env ml n) = n"
    using Suc.prems by (simp add: successes_all_resolved)
  ultimately show ?case
    using Suc
    by (simp add: loopCalls_Suc progressLog_append progressLog_iterationCalls
        publishes_loopCalls length_snapshots)
qed

lemma run_progress:
  "\<forall>j<n. isResolved (outcome env j) \<Longrightarrow> 0 < n \<Longrightarrow>
   progress (snd (fold (iteration env cfg ml) [0..<n] s)) = \<lparr>current = n, total_n = length ml\<rparr>"
  by (cases n) (auto simp: iteration_progress split: gen_result.split)

subsection \<open>The operation as a whole\<close>

lemma batchStart_fields:
  "\<not> shouldStop (batchStart m)"
  "calls (batchStart m) =
     calls m @ [Confirm (length (filter lacksDescription (links m))), SetIsProcessing True,
       SetProgress \<lparr>current = 0, total_n = length (filter lacksDescription (links m))\<rparr>]"
  "links (batchStart m) = links m"
  "config (batchStart m) = config m"
  "localConfig (batchStart m) = localConfig m"
  "isOpen (batchStart m) = isOpen m"
  by (simp_all add: batchStart_def Let_def setProgress_def setIsProcessing_def logCall_def)

lemma handleBulkGenerate_started:
  assumes "apiKey (localConfig m) \<noteq> []" and "filter lacksDescription (links m) \<noteq> []"
  shows "handleBulkGenerate env True m =
     setIsProcessing False
       (snd (fold (iteration env (localConfig m) (filter lacksDescription (links m)))
          [0..<attempts env (length (filter lacksDescription (links m)))]
          (links m, batchStart m)))"
proof -
  have "bulk_loop env (localConfig m) (filter lacksDescription (links m)) 0 (links m, batchStart m) =
      fold (iteration env (localConfig m) (filter lacksDescription (links m)))
        [0..<attempts env (length (filter lacksDescription (links m)))] (links m, batchStart m)"
    by (rule bulk_loop_run) (simp add: batchStart_fields)
  then show ?thesis
    using assms by (simp add: handleBulkGenerate_def Let_def batchStart_def)
qed

lemma newCalls_append: "calls r = calls m @ cs \<Longrightarrow> newCalls m r = cs"
  by (simp add: newCalls_def)

lemma handleBulkGenerate_newCalls:
  assumes "apiKey (localConfig m) \<noteq> []" and "filter lacksDescription (links m) \<noteq> []"
  shows "newCalls m (handleBulkGenerate env True m) =
     [Confirm (length (filter lacksDescription (links m))), SetIsProcessing True,
      SetProgress \<lparr>current = 0, total_n = length (filter lacksDescription (links m))\<rparr>] @
     loopCalls env (localConfig m) (filter lacksDescription (links m)) (links m)
       (attempts env (length (filter lacksDescription (links m)))) @
     [SetIsProcessing False]"
  by (rule newCalls_append)
    (simp add: handleBulkGenerate_started [OF assms] setIsProcessing_def logCall_def run_calls
      batchStart_fields)

lemma handleBulkGenerate_rejected:
  "apiKey (localConfig m) = [] \<or> filter lacksDescription (links m) = [] \<Longrightarrow>
   handleBulkGenerate env confirmed m =
     logCall (Alert (if apiKey (localConfig m) = [] then MissingApiKey
                     else NoMissingDescriptions)) m"
  by (auto simp: handleBulkGenerate_def Let_def)

lemma handleBulkGenerate_declined:
  "apiKey (localConfig m) \<noteq> [] \<Longrightarrow> filter lacksDescription (links m) \<noteq> [] \<Longrightarrow>
   handleBulkGenerate env False m =
     logCall (Confirm (length (filter lacksDescription (links m)))) m"
  by (auto simp: handleBulkGenerate_def Let_def)

subsection \<open>The fields of the draft\<close>

lemma getField_spreadField_same: "getField k (spreadField k v c) = v"
  by (cases k) simp_all

lemma getField_spreadField_other: "k' \<noteq> k \<Longrightarrow> getField k' (spreadField k v c) = getField k' c"
  by (cases k; cases k') simp_all

subsection \<open>The owner's config and the shape of the log\<close>

lemma iteration_config:
  "iteration env cfg ml i (fst s, (snd s)\<lparr>config := owner\<rparr>) =
     (fst (iteration env cfg ml i s), (snd (iteration env cfg ml i s))\<lparr>config := owner\<rparr>)"
  by (simp add: iteration_def Let_def handleStop_def setIsProcessing_def setProgress_def
      logCall_def split: gen_result.split)

lemma bulk_loop_config:
  "bulk_loop env cfg ml i (fst s, (snd s)\<lparr>config := owner\<rparr>) =
     (fst (bulk_loop env cfg ml i s), (snd (bulk_loop env cfg ml i s))\<lparr>config := owner\<rparr>)"
proof (induction env cfg ml i s rule: bulk_loop.induct)
  case (1 env cfg ml i s)
  show ?case
  proof (cases "i < length ml \<and> \<not> shouldStop (snd s)")
    case True
    then have "bulk_loop env cfg ml i (fst s, (snd s)\<lparr>config := owner\<rparr>) =
        bulk_loop env cfg ml (i + 1)
          (iteration env cfg ml i (fst s, (snd s)\<lparr>config := owner\<rparr>))"
      by (subst bulk_loop.simps) simp
    also have "\<dots> = bulk_loop env cfg ml (i + 1)
        (fst (iteration env cfg ml i s), (snd (iteration env cfg ml i s))\<lparr>config := owner\<rparr>)"
      by (simp only: iteration_config)
    also have "\<dots> = (fst (bulk_loop env cfg ml (i + 1) (iteration env cfg ml i s)),
        (snd (bulk_loop env cfg ml (i + 1) (iteration env cfg ml i s)))\<lparr>config := owner\<rparr>)"
      using True by (intro "1.IH") simp_all
    also have "bulk_loop env cfg ml (i + 1) (iteration env cfg ml i s) = bulk_loop env cfg ml i s"
      using True by (subst (2) bulk_loop.simps) simp
    finally show ?thesis .
  next
    case False
    then have "bulk_loop env cfg ml i (fst s, (snd s)\<lparr>config := owner\<rparr>) =
        (fst s, (snd s)\<lparr>config := owner\<rparr>)"
      by (subst bulk_loop.simps) auto
    moreover have "bulk_loop env cfg ml i s = s"
      using False by (subst bulk_loop.simps) auto
    ultimately show ?thesis by simp
  qed
qed

lemma handleBulkGenerate_config:
  "handleBulkGenerate env confirmed (m\<lparr>config := owner\<rparr>) =
     (handleBulkGenerate env confirmed m)\<lparr>config := owner\<rparr>"
proof -
  let ?n = "length (filter lacksDescription (links m))"
  let ?m3 = "setProgress \<lparr>current = 0, total_n = ?n\<rparr>
      ((setIsProcessing True (logCall (Confirm ?n) m))\<lparr>shouldStop := False\<rparr>)"
  have start: "setProgress \<lparr>current = 0, total_n = ?n\<rparr>
      ((setIsProcessing True (logCall (Confirm ?n) (m\<lparr>config := owner\<rparr>)))\<lparr>shouldStop := False\<rparr>) =
      ?m3\<lparr>config := owner\<rparr>"
    by (simp add: setProgress_def setIsProcessing_def logCall_def)
  have "bulk_loop env (localConfig m) (filter lacksDescription (links m)) 0
      (links m, ?m3\<lparr>config := owner\<rparr>) =
      (fst (bulk_loop env (localConfig m) (filter lacksDescription (links m)) 0 (links m, ?m3)),
       (snd (bulk_loop env (localConfig m) (filter lacksDescription (links m)) 0 (links m, ?m3)))
         \<lparr>config := owner\<rparr>)"
    using bulk_loop_config [of env "localConfig m" "filter lacksDescription (links m)" 0
        "(links m, ?m3)" owner]
    by simp
  then show ?thesis
    by (simp add: handleBulkGenerate_def Let_def start)
      (simp add: setIsProcessing_def logCall_def)
qed

lemma handleBulkGenerate_cases:
  "newCalls m (handleBulkGenerate env confirmed m) = [Alert MissingApiKey] \<and>
     apiKey (localConfig m) = [] \<or>
   newCalls m (handleBulkGenerate env confirmed m) = [Alert NoMissingDescriptions] \<and>
     apiKey (localConfig m) \<noteq> [] \<or>
   newCalls m (handleBulkGenerate env confirmed m) =
     [Confirm (length (filter lacksDescription (links m)))] \<and>
     apiKey (localConfig m) \<noteq> [] \<or>
   newCalls m (handleBulkGenerate env confirmed m) =
     [Confirm (length (filter lacksDescription (links m))), SetIsProcessing True,
      SetProgress \<lparr>current = 0, total_n = length (filter lacksDescription (links m))\<rparr>] @
     loopCalls env (localConfig m) (filter lacksDescription (links m)) (links m)
       (attempts env (length (filter lacksDescription (links m)))) @
     [SetIsProcessing False] \<and>
     apiKey (localConfig m) \<noteq> []"
proof (cases "apiKey (localConfig m) = [] \<or> filter lacksDescription (links m) = []")
  case True
  then show ?thesis
    by (auto simp: handleBulkGenerate_rejected logCall_def newCalls_def)
next
  case False
  show ?thesis
  proof (cases confirmed)
    case True
    then show ?thesis using False by (simp add: handleBulkGenerate_newCalls)
  next
    case no: False
    then show ?thesis
      using False by (simp add: handleBulkGenerate_declined logCall_def newCalls_def)
  qed
qed

lemma set_loopCalls:
  "c \<in> set (loopCalls env cfg ml cl n) \<Longrightarrow> c \<noteq> Alert a"
  by (induction n)
    (auto simp: loopCalls_0 loopCalls_Suc iterationCalls_def split: gen_result.splits if_splits)

lemma set_generations_loopCalls:
  "g \<in> set (generations (loopCalls env cfg ml cl n)) \<Longrightarrow> snd (snd g) = cfg"
  by (induction n)
    (auto simp: loopCalls_0 loopCalls_Suc generations_append generations_iterationCalls)

lemma bulk_generates_with_draft:
  "g \<in> set (generations (newCalls m (handleBulkGenerate env confirmed m))) \<Longrightarrow>
   snd (snd g) = localConfig m"
  using handleBulkGenerate_cases [of m env confirmed]
  by (auto simp: generations_append dest: set_generations_loopCalls)

subsection \<open>What a run does to each item\<close>

lemma fillDescription_map: "fillDescription link desc cl = map (fillItem link desc) cl"
  by (simp add: fillDescription_def fillItem_def)

lemma fold_fillDescription:
  "fold (\<lambda>(l, d). fillDescription l d) xs cl = map (fold (\<lambda>(l, d). fillItem l d) xs) cl"
  by (induction xs arbitrary: cl) (auto simp: fillDescription_map)

lemma fillItems_miss:
  "\<forall>e \<in> set xs. id_link (fst e) \<noteq> id_link x \<Longrightarrow> fold (\<lambda>(l, d). fillItem l d) xs x = x"
  by (induction xs arbitrary: x) (auto simp: fillItem_def)

lemma fillItems_hit:
  assumes "distinct (map (\<lambda>e. id_link (fst e)) xs)" and "(l, d) \<in> set xs" and "id_link l = id_link x"
  shows "fold (\<lambda>(l, d). fillItem l d) xs x = x\<lparr>description := Some d\<rparr>"
  using assms
proof (induction xs arbitrary: x)
  case Nil
  then show ?case by simp
next
  case (Cons e xs)
  show ?case
  proof (cases "e = (l, d)")
    case True
    have "\<forall>e' \<in> set xs. id_link (fst e') \<noteq> id_link (x\<lparr>description := Some d\<rparr>)"
      using Cons.prems True by (auto simp: image_iff)
    then have "fold (\<lambda>(l, d). fillItem l d) xs (x\<lparr>description := Some d\<rparr>) =
        x\<lparr>description := Some d\<rparr>"
      by (rule fillItems_miss)
    moreover have "fillItem l d x = x\<lparr>description := Some d\<rparr>"
      using Cons.prems(3) by (simp add: fillItem_def)
    ultimately show ?thesis using True by simp
  next
    case False
    then have mem: "(l, d) \<in> set xs" using Cons.prems by simp
    then have "id_link (fst e) \<noteq> id_link l"
      using Cons.prems(1) by (force simp: image_iff)
    then have "fillItem (fst e) (snd e) x = x"
      using Cons.prems(3) by (simp add: fillItem_def)
    then show ?thesis
      using Cons.IH [OF _ mem Cons.prems(3)] Cons.prems(1) by (simp add: case_prod_beta)
  qed
qed

lemma set_successes:
  "set (successes env ml n) = {(ml ! j, d) | j d. j < n \<and> outcome env j = Resolves d}"
  by (induction n)
    (auto simp: successes_0 successes_Suc less_Suc_eq split: gen_result.splits)

lemma id_link_index:
  assumes "distinct (map id_link ml)" and "i < length ml" and "j < length ml"
    and "id_link (ml ! i) = id_link (ml ! j)"
  shows "i = j"
proof -
  have "map id_link ml ! i = map id_link ml ! j"
    using assms(2,3,4) by simp
  then show ?thesis
    using nth_eq_iff_index_eq [of "map id_link ml" i j] assms(1,2,3) by simp
qed

lemma distinct_successes:
  assumes "distinct (map id_link ml)" and "n \<le> length ml"
  shows "distinct (map (\<lambda>e. id_link (fst e)) (successes env ml n))"
  using assms(2)
proof (induction n)
  case 0
  then show ?case by (simp add: successes_0)
next
  case (Suc n)
  have fresh: "id_link (ml ! n) \<notin> (\<lambda>e. id_link (fst e)) ` set (successes env ml n)"
  proof
    assume "id_link (ml ! n) \<in> (\<lambda>e. id_link (fst e)) ` set (successes env ml n)"
    then obtain j where j: "j < n" "id_link (ml ! n) = id_link (ml ! j)"
      by (auto simp: set_successes)
    then have "n = j"
      using Suc.prems by (intro id_link_index [OF assms(1)]) simp_all
    then show False using j(1) by simp
  qed
  have "distinct (map (\<lambda>e. id_link (fst e)) (successes env ml n))"
    using Suc by simp
  then show ?case
    using fresh by (simp add: successes_Suc split: gen_result.split)
qed

lemma last_snapshots:
  "last (cl # snapshots xs cl) = fold (\<lambda>(l, d). fillDescription l d) xs cl"
  by (induction xs arbitrary: cl) auto

lemma set_snapshots_erase:
  "c \<in> set (snapshots xs cl) \<Longrightarrow>
   map (\<lambda>l. l\<lparr>description := None\<rparr>) c = map (\<lambda>l. l\<lparr>description := None\<rparr>) cl"
proof (induction xs arbitrary: cl)
  case Nil
  then show ?case by simp
next
  case (Cons e xs)
  have step: "map (\<lambda>l. l\<lparr>description := None\<rparr>) (fillDescription (fst e) (snd e) cl) =
      map (\<lambda>l. l\<lparr>description := None\<rparr>) cl"
    by (simp add: fillDescription_def)
  show ?case
    using Cons.prems Cons.IH [of "fillDescription (fst e) (snd e) cl"] step
    by (cases e) auto
qed

lemma ownerLinks_started:
  assumes "apiKey (localConfig m) \<noteq> []" and "filter lacksDescription (links m) \<noteq> []"
  shows "ownerLinks m (handleBulkGenerate env True m) =
     map (fold (\<lambda>(l, d). fillItem l d)
            (successes env (filter lacksDescription (links m))
               (attempts env (length (filter lacksDescription (links m))))))
       (links m)"
proof -
  have "publishes (newCalls m (handleBulkGenerate env True m)) =
      snapshots (successes env (filter lacksDescription (links m))
        (attempts env (length (filter lacksDescription (links m))))) (links m)"
    by (simp add: handleBulkGenerate_newCalls [OF assms] publishes_append publishes_loopCalls)
  then show ?thesis
    by (simp only: ownerLinks_def last_snapshots fold_fillDescription)
qed

lemma target_item:
  assumes "distinct (map id_link ls)" and "ml = filter lacksDescription ls"
    and "n \<le> length ml" and "j < length ml" and "id_link x = id_link (ml ! j)"
  shows "fold (\<lambda>(l, d). fillItem l d) (successes env ml n) x =
     (case outcome env j of
        Resolves d \<Rightarrow> if j < n then x\<lparr>description := Some d\<rparr> else x
      | Throws \<Rightarrow> x)"
proof -
  have dist: "distinct (map id_link ml)"
    using assms(1,2) by (simp add: distinct_map_filter)
  have same: "j' = j" if "j' < n" and "id_link (ml ! j') = id_link x" for j'
    using that assms(3,4,5) by (intro id_link_index [OF dist]) simp_all
  show ?thesis
  proof (cases "\<exists>d. j < n \<and> outcome env j = Resolves d")
    case True
    then obtain d where d: "j < n" "outcome env j = Resolves d" by blast
    then have "(ml ! j, d) \<in> set (successes env ml n)"
      by (auto simp: set_successes)
    then have "fold (\<lambda>(l, d). fillItem l d) (successes env ml n) x = x\<lparr>description := Some d\<rparr>"
      using distinct_successes [OF dist assms(3)] assms(5) by (intro fillItems_hit) simp_all
    then show ?thesis using d by simp
  next
    case False
    have "\<forall>e \<in> set (successes env ml n). id_link (fst e) \<noteq> id_link x"
      using False same by (auto simp: set_successes)
    then have "fold (\<lambda>(l, d). fillItem l d) (successes env ml n) x = x"
      by (rule fillItems_miss)
    then show ?thesis using False by (auto split: gen_result.split)
  qed
qed

lemma described_item:
  assumes "distinct (map id_link ls)" and "ml = filter lacksDescription ls"
    and "n \<le> length ml" and "x \<in> set ls" and "\<not> lacksDescription x"
  shows "fold (\<lambda>(l, d). fillItem l d) (successes env ml n) x = x"
proof -
  have "id_link (fst e) \<noteq> id_link x" if e: "e \<in> set (successes env ml n)" for e
  proof
    assume eq: "id_link (fst e) = id_link x"
    obtain j where j: "j < n" "fst e = ml ! j"
      using e by (auto simp: set_successes)
    then have "fst e \<in> set ml" using assms(3) by simp
    then have mem: "fst e \<in> set ls" and lacks: "lacksDescription (fst e)"
      using assms(2) by simp_all
    have "inj_on id_link (set ls)" using assms(1) by (simp add: distinct_map)
    then have "fst e = x" using mem assms(4) eq by (auto dest: inj_onD)
    then show False using lacks assms(5) by simp
  qed
  then show ?thesis by (intro fillItems_miss) blast
qed

lemma ownerLinks_nth:
  assumes "apiKey (localConfig m) \<noteq> []" and "filter lacksDescription (links m) \<noteq> []"
    and "p < length (links m)"
  shows "ownerLinks m (handleBulkGenerate env True m) ! p =
     fold (\<lambda>(l, d). fillItem l d)
       (successes env (filter lacksDescription (links m))
          (attempts env (length (filter lacksDescription (links m)))))
       (links m ! p)"
  using assms(3) by (simp add: ownerLinks_started [OF assms(1,2)])

subsection \<open>The concrete inputs\<close>

lemma modalAB_missing: "filter lacksDescription (links modalAB) = [linkA, linkB]"
  by (simp add: modalAB_def lacksDescription_def linkA_def linkB_def linkC_def)

lemma modalAB_apiKey: "apiKey (localConfig modalAB) \<noteq> []"
  by (simp add: modalAB_def draftCfg_def)

lemma upt_2: "[0..<2] = [0, Suc 0]"
  by (simp add: numeral_2_eq_2)

lemma generations_AB:
  assumes "apiKey (localConfig m) \<noteq> []"
    and "filter lacksDescription (links m) = [linkA, linkB]"
    and "\<forall>j<2. \<not> stopPressed env j"
  shows "generations (newCalls m (handleBulkGenerate env True m)) =
     [(''A'', ''http://a'', localConfig m), (''B'', ''http://b'', localConfig m)]"
proof -
  have ne: "filter lacksDescription (links m) \<noteq> []" using assms(2) by simp
  have len: "length [linkA, linkB] = 2" by simp
  have "attempts env (length [linkA, linkB]) = 2"
    unfolding len using assms(3) by (rule attempts_no_stop)
  then show ?thesis
    by (simp add: handleBulkGenerate_newCalls [OF assms(1) ne] assms(2) generations_append
        generations_loopCalls linkA_def linkB_def)
qed

lemma modalAB_links: "links modalAB = [linkA, linkC, linkB]"
  by (simp add: modalAB_def)

lemma modalAB_distinct: "distinct (map id_link (links modalAB))"
  by (simp add: modalAB_def linkA_def linkB_def linkC_def)

lemma publishes_BA:
  "publishes (newCalls modalAB (handleBulkGenerate envBA True modalAB)) =
     [[linkA, linkC, linkB\<lparr>description := Some ''dB''\<rparr>]]"
proof -
  have ne: "filter lacksDescription (links modalAB) \<noteq> []"
    by (simp add: modalAB_missing)
  have len: "length [linkA, linkB] = 2" by simp
  have att: "attempts envBA 2 = 2"
    by (simp add: attempts_def upt_2 envBA_def)
  have suc: "successes envBA [linkA, linkB] 2 = [(linkB, ''dB'')]"
    by (simp add: successes_def upt_2 envBA_def)
  have snap: "snapshots [(linkB, ''dB'')] [linkA, linkC, linkB] =
      [[linkA, linkC, linkB\<lparr>description := Some ''dB''\<rparr>]]"
    by (simp add: fillDescription_def linkA_def linkB_def linkC_def)
  have "publishes (newCalls modalAB (handleBulkGenerate envBA True modalAB)) =
      snapshots
        (successes envBA (filter lacksDescription (links modalAB))
           (attempts envBA (length (filter lacksDescription (links modalAB)))))
        (links modalAB)"
    by (simp add: handleBulkGenerate_newCalls [OF modalAB_apiKey ne] publishes_append
        publishes_loopCalls)
  then have "publishes (newCalls modalAB (handleBulkGenerate envBA True modalAB)) =
      snapshots (successes envBA [linkA, linkB] (attempts envBA (length [linkA, linkB])))
        (links modalAB)"
    by (simp only: modalAB_missing)
  then show ?thesis
    by (simp only: modalAB_links len att suc snap)
qed

section \<open>The config draft\<close>

text \<open>
  C8. For every draft, field name and value, the setter puts the value into the named
  field of the draft and leaves every other field of the draft, and everything else of
  the component, as it was.
\<close>

theorem handleChange_frame:
  "getField k (localConfig (handleChange k v m)) = v \<and>
   (\<forall>k'. k' \<noteq> k \<longrightarrow>
      getField k' (localConfig (handleChange k v m)) = getField k' (localConfig m)) \<and>
   handleChange k v m = m\<lparr>localConfig := localConfig (handleChange k v m)\<rparr>"
  by (simp add: handleChange_def getField_spreadField_same getField_spreadField_other)

theorem handleChange_frame_witness:
  "getField ApiKey (localConfig (handleChange ApiKey ''sk-1'' modalAB)) = ''sk-1'' \<and>
   Model \<noteq> ApiKey \<and>
   getField Model (localConfig (handleChange ApiKey ''sk-1'' modalAB)) = ''flash'' \<and>
   handleChange ApiKey ''sk-1'' modalAB =
     modalAB\<lparr>localConfig := localConfig (handleChange ApiKey ''sk-1'' modalAB)\<rparr>"
proof -
  note frame = handleChange_frame [of ApiKey "''sk-1''" modalAB]
  have other: "Model \<noteq> ApiKey" by simp
  have "getField Model (localConfig (handleChange ApiKey ''sk-1'' modalAB)) =
      getField Model (localConfig modalAB)"
    using frame other by blast
  moreover have "getField Model (localConfig modalAB) = ''flash''"
    by (simp add: modalAB_def draftCfg_def)
  ultimately show ?thesis using frame other by simp
qed

text \<open>
  C7. Saving calls the owner's save callback once, with the draft as edited, and then the
  close callback. Cancelling calls the close callback only: no save and no publish. And
  whatever was edited, once the owner has closed the dialog and opens it again, the draft
  is the owner's config.
\<close>

theorem save_and_cancel:
  "newCalls m (handleSave m) = [OnSave (localConfig m), OnClose] \<and>
   newCalls m (handleSave (handleChange k v m)) =
     [OnSave (spreadField k v (localConfig m)), OnClose] \<and>
   saves (newCalls m (handleSave (handleChange k v m))) = [spreadField k v (localConfig m)] \<and>
   newCalls m (cancelClick (handleChange k v m)) = [OnClose] \<and>
   saves (newCalls m (cancelClick (handleChange k v m))) = [] \<and>
   publishes (newCalls m (cancelClick (handleChange k v m))) = [] \<and>
   localConfig (rerender c2 True owner2
     (rerender c1 False owner1 (cancelClick (handleChange k v m)))) = owner2"
  by (simp add: handleSave_def cancelClick_def handleChange_def logCall_def newCalls_def
      rerender_def useEffect_def Let_def setProgress_def setIsProcessing_def)

theorem save_and_cancel_witness:
  "newCalls modalAB (handleSave (handleChange ApiKey ''sk-1'' modalAB)) =
     [OnSave (draftCfg\<lparr>apiKey := ''sk-1''\<rparr>), OnClose] \<and>
   newCalls modalAB (cancelClick (handleChange ApiKey ''sk-1'' modalAB)) = [OnClose] \<and>
   localConfig (rerender False True ownerCfg
     (rerender False False ownerCfg (cancelClick (handleChange ApiKey ''sk-1'' modalAB)))) =
     ownerCfg"
proof -
  have "spreadField ApiKey ''sk-1'' (localConfig modalAB) = draftCfg\<lparr>apiKey := ''sk-1''\<rparr>"
    by (simp add: modalAB_def)
  then show ?thesis
    using save_and_cancel [of modalAB ApiKey "''sk-1''" False ownerCfg False ownerCfg]
    by simp
qed

section \<open>Starting a batch\<close>

text \<open>
  C5. When the draft has no API key, or when no item lacks a description, the operation
  shows one notice and does nothing else: no generation call, no publish, the owner's
  collection and the component's state as they were.
\<close>

theorem bulk_rejected:
  assumes "apiKey (localConfig m) = [] \<or> (\<forall>l \<in> set (links m). \<not> lacksDescription l)"
  shows "newCalls m (handleBulkGenerate env confirmed m) =
           [Alert (if apiKey (localConfig m) = [] then MissingApiKey
                   else NoMissingDescriptions)] \<and>
         generations (newCalls m (handleBulkGenerate env confirmed m)) = [] \<and>
         publishes (newCalls m (handleBulkGenerate env confirmed m)) = [] \<and>
         ownerLinks m (handleBulkGenerate env confirmed m) = links m \<and>
         handleBulkGenerate env confirmed m =
           m\<lparr>calls := calls (handleBulkGenerate env confirmed m)\<rparr>"
proof -
  have "apiKey (localConfig m) = [] \<or> filter lacksDescription (links m) = []"
    using assms by (auto simp: filter_empty_conv)
  then have r: "handleBulkGenerate env confirmed m =
      logCall (Alert (if apiKey (localConfig m) = [] then MissingApiKey
                      else NoMissingDescriptions)) m"
    by (rule handleBulkGenerate_rejected)
  show ?thesis
    unfolding r by (simp add: logCall_def newCalls_def ownerLinks_def)
qed

theorem bulk_rejected_witness:
  "apiKey (localConfig (modalAB\<lparr>localConfig := ownerCfg\<rparr>)) = [] \<and>
   newCalls (modalAB\<lparr>localConfig := ownerCfg\<rparr>)
     (handleBulkGenerate envOk True (modalAB\<lparr>localConfig := ownerCfg\<rparr>)) =
     [Alert MissingApiKey] \<and>
   links (modalAB\<lparr>links := [linkC]\<rparr>) = [linkC] \<and> \<not> lacksDescription linkC \<and>
   newCalls (modalAB\<lparr>links := [linkC]\<rparr>)
     (handleBulkGenerate envOk True (modalAB\<lparr>links := [linkC]\<rparr>)) =
     [Alert NoMissingDescriptions] \<and>
   ownerLinks (modalAB\<lparr>links := [linkC]\<rparr>)
     (handleBulkGenerate envOk True (modalAB\<lparr>links := [linkC]\<rparr>)) = [linkC]"
proof -
  have k: "apiKey (localConfig (modalAB\<lparr>localConfig := ownerCfg\<rparr>)) = []"
    by (simp add: ownerCfg_def)
  have d: "\<forall>l \<in> set (links (modalAB\<lparr>links := [linkC]\<rparr>)). \<not> lacksDescription l"
    by (simp add: lacksDescription_def linkC_def)
  have k': "apiKey (localConfig (modalAB\<lparr>links := [linkC]\<rparr>)) \<noteq> []"
    by (simp add: modalAB_def draftCfg_def)
  have c: "\<not> lacksDescription linkC"
    by (simp add: lacksDescription_def linkC_def)
  show ?thesis
    using k d k' c
      bulk_rejected [of "modalAB\<lparr>localConfig := ownerCfg\<rparr>" envOk True]
      bulk_rejected [of "modalAB\<lparr>links := [linkC]\<rparr>" envOk True]
    by simp
qed

text \<open>
  C10. The batch reads the draft: the API-key check is made on the draft's key, every
  generation call carries the draft, the owner's committed config plays no role, and
  nothing is saved; so a value edited into the draft reaches every generation call.
\<close>

theorem bulk_reads_draft:
  "(apiKey (localConfig m) = [] \<longrightarrow>
      newCalls m (handleBulkGenerate env confirmed m) = [Alert MissingApiKey]) \<and>
   (apiKey (localConfig m) \<noteq> [] \<longrightarrow>
      Alert MissingApiKey \<notin> set (newCalls m (handleBulkGenerate env confirmed m))) \<and>
   (\<forall>g \<in> set (generations (newCalls m (handleBulkGenerate env confirmed m))).
      snd (snd g) = localConfig m) \<and>
   saves (newCalls m (handleBulkGenerate env confirmed m)) = [] \<and>
   handleBulkGenerate env confirmed (m\<lparr>config := owner\<rparr>) =
     (handleBulkGenerate env confirmed m)\<lparr>config := owner\<rparr> \<and>
   (\<forall>g \<in> set (generations (newCalls (handleChange k v m)
        (handleBulkGenerate env confirmed (handleChange k v m)))).
      getField k (snd (snd g)) = v)"
proof -
  have key: "apiKey (localConfig m) = [] \<longrightarrow>
      newCalls m (handleBulkGenerate env confirmed m) = [Alert MissingApiKey]"
    using handleBulkGenerate_cases [of m env confirmed] by auto
  have nokey: "apiKey (localConfig m) \<noteq> [] \<longrightarrow>
      Alert MissingApiKey \<notin> set (newCalls m (handleBulkGenerate env confirmed m))"
    using handleBulkGenerate_cases [of m env confirmed]
    by (auto dest: set_loopCalls)
  have nosave: "saves (newCalls m (handleBulkGenerate env confirmed m)) = []"
    using handleBulkGenerate_cases [of m env confirmed]
    by (auto simp: saves_append saves_loopCalls)
  have edited: "getField k (snd (snd g)) = v"
    if "g \<in> set (generations (newCalls (handleChange k v m)
        (handleBulkGenerate env confirmed (handleChange k v m))))" for g
    using bulk_generates_with_draft [OF that]
    by (simp add: handleChange_def getField_spreadField_same)
  show ?thesis
    using key nokey nosave edited bulk_generates_with_draft [of _ m env confirmed]
      handleBulkGenerate_config [of env confirmed owner m]
    by blast
qed

theorem bulk_reads_draft_witness:
  "apiKey (config modalAB) = [] \<and> apiKey (localConfig modalAB) \<noteq> [] \<and>
   Alert MissingApiKey \<notin> set (newCalls modalAB (handleBulkGenerate envOk True modalAB)) \<and>
   (''A'', ''http://a'', draftCfg)
     \<in> set (generations (newCalls modalAB (handleBulkGenerate envOk True modalAB))) \<and>
   snd (snd (''A'', ''http://a'', draftCfg)) = localConfig modalAB \<and>
   apiKey (localConfig (modalAB\<lparr>localConfig := ownerCfg\<rparr>)) = [] \<and>
   newCalls (modalAB\<lparr>localConfig := ownerCfg\<rparr>)
     (handleBulkGenerate envOk True (modalAB\<lparr>localConfig := ownerCfg\<rparr>)) =
     [Alert MissingApiKey] \<and>
   (''A'', ''http://a'', draftCfg\<lparr>model := ''pro''\<rparr>)
     \<in> set (generations (newCalls (handleChange Model ''pro'' modalAB)
          (handleBulkGenerate envOk True (handleChange Model ''pro'' modalAB)))) \<and>
   getField Model (snd (snd (''A'', ''http://a'', draftCfg\<lparr>model := ''pro''\<rparr>))) = ''pro''"
proof -
  have quiet: "\<forall>j<2. \<not> stopPressed envOk j" by (simp add: envOk_def)
  have owner: "apiKey (config modalAB) = []"
    by (simp add: modalAB_def ownerCfg_def)
  have nokey: "apiKey (localConfig (modalAB\<lparr>localConfig := ownerCfg\<rparr>)) = []"
    by (simp add: ownerCfg_def)
  have draft: "localConfig modalAB = draftCfg" by (simp add: modalAB_def)
  have g: "(''A'', ''http://a'', draftCfg)
      \<in> set (generations (newCalls modalAB (handleBulkGenerate envOk True modalAB)))"
    by (simp add: generations_AB [OF modalAB_apiKey modalAB_missing quiet] draft)
  have "apiKey (localConfig (handleChange Model ''pro'' modalAB)) \<noteq> []"
      "filter lacksDescription (links (handleChange Model ''pro'' modalAB)) = [linkA, linkB]"
      "localConfig (handleChange Model ''pro'' modalAB) = draftCfg\<lparr>model := ''pro''\<rparr>"
    using modalAB_apiKey modalAB_missing draft by (simp_all add: handleChange_def)
  then have g': "(''A'', ''http://a'', draftCfg\<lparr>model := ''pro''\<rparr>)
      \<in> set (generations (newCalls (handleChange Model ''pro'' modalAB)
          (handleBulkGenerate envOk True (handleChange Model ''pro'' modalAB))))"
    using generations_AB [of "handleChange Model ''pro'' modalAB" envOk] quiet by simp
  show ?thesis
    using owner nokey draft g g' modalAB_apiKey
      bulk_reads_draft [of modalAB envOk True ownerCfg Model "''pro''"]
      bulk_reads_draft [of "modalAB\<lparr>localConfig := ownerCfg\<rparr>" envOk True ownerCfg Model "''pro''"]
    by blast
qed

section \<open>The run of a batch\<close>

text \<open>
  C2. In a run over \<open>N\<close> targets in which stop is never pressed, the number of publishes
  is the number of calls that resolved (a call that throws publishes nothing). When
  every call resolves there are \<open>N\<close> publishes, the progress set after the k-th publish
  is \<open>(k, N)\<close> (the log pairs every progress value with the number of publishes made
  before it, starting with \<open>(0, N)\<close> before the first), and the final progress is
  \<open>(N, N)\<close>.
\<close>

theorem bulk_publish_count:
  assumes "apiKey (localConfig m) \<noteq> []"
    and "N = length (filter lacksDescription (links m))" and "0 < N"
    and "\<forall>j<N. \<not> stopPressed env j"
  shows "length (publishes (newCalls m (handleBulkGenerate env True m))) =
           length (filter (\<lambda>j. isResolved (outcome env j)) [0..<N]) \<and>
         ((\<forall>j<N. isResolved (outcome env j)) \<longrightarrow>
            length (publishes (newCalls m (handleBulkGenerate env True m))) = N \<and>
            progressLog 0 (newCalls m (handleBulkGenerate env True m)) =
              map (\<lambda>k. (k, \<lparr>current = k, total_n = N\<rparr>)) [0..<Suc N] \<and>
            progress (handleBulkGenerate env True m) = \<lparr>current = N, total_n = N\<rparr>)"
proof -
  let ?ml = "filter lacksDescription (links m)"
  have ne: "?ml \<noteq> []" using assms(2,3) by auto
  have att: "attempts env (length ?ml) = N"
    using assms(2,4) by (simp add: attempts_no_stop)
  note nc = handleBulkGenerate_newCalls [OF assms(1) ne, of env]
  have count: "length (publishes (newCalls m (handleBulkGenerate env True m))) =
      length (filter (\<lambda>j. isResolved (outcome env j)) [0..<N])"
    by (simp add: nc att publishes_append publishes_loopCalls length_snapshots length_successes)
  have all: "length (publishes (newCalls m (handleBulkGenerate env True m))) = N \<and>
      progressLog 0 (newCalls m (handleBulkGenerate env True m)) =
        map (\<lambda>k. (k, \<lparr>current = k, total_n = N\<rparr>)) [0..<Suc N] \<and>
      progress (handleBulkGenerate env True m) = \<lparr>current = N, total_n = N\<rparr>"
    if ok: "\<forall>j<N. isResolved (outcome env j)"
  proof -
    have "length (publishes (newCalls m (handleBulkGenerate env True m))) = N"
      using count ok by simp
    moreover have "progressLog 0 (newCalls m (handleBulkGenerate env True m)) =
        map (\<lambda>k. (k, \<lparr>current = k, total_n = N\<rparr>)) [0..<Suc N]"
    proof -
      have "progressLog 0 (newCalls m (handleBulkGenerate env True m)) =
          (0, \<lparr>current = 0, total_n = N\<rparr>) #
          map (\<lambda>j. (Suc j, \<lparr>current = Suc j, total_n = N\<rparr>)) [0..<N]"
        using ok assms(2)
        by (simp add: nc att progressLog_append progressLog_loopCalls publishes_loopCalls
            length_snapshots)
      also have "\<dots> = map (\<lambda>k. (k, \<lparr>current = k, total_n = N\<rparr>)) (0 # map Suc [0..<N])"
        by (simp add: comp_def)
      also have "0 # map Suc [0..<N] = [0..<Suc N]"
        by (simp add: map_Suc_upt upt_conv_Cons del: upt_Suc)
      finally show ?thesis .
    qed
    moreover have "progress (handleBulkGenerate env True m) = \<lparr>current = N, total_n = N\<rparr>"
      using ok assms(2,3)
      by (simp add: handleBulkGenerate_started [OF assms(1) ne] att setIsProcessing_def
          logCall_def run_progress)
    ultimately show ?thesis by simp
  qed
  show ?thesis using count all by blast
qed

theorem bulk_publish_count_witness:
  "apiKey (localConfig modalAB) \<noteq> [] \<and>
   length (filter lacksDescription (links modalAB)) = 2 \<and>
   \<not> stopPressed envAB 0 \<and> \<not> stopPressed envAB 1 \<and>
   length (publishes (newCalls modalAB (handleBulkGenerate envAB True modalAB))) = 1 \<and>
   \<not> stopPressed envOk 0 \<and> \<not> stopPressed envOk 1 \<and>
   isResolved (outcome envOk 0) \<and> isResolved (outcome envOk 1) \<and>
   length (publishes (newCalls modalAB (handleBulkGenerate envOk True modalAB))) = 2 \<and>
   progress (handleBulkGenerate envOk True modalAB) = \<lparr>current = 2, total_n = 2\<rparr>"
proof -
  have n: "2 = length (filter lacksDescription (links modalAB))"
    by (simp add: modalAB_missing)
  have quiet: "\<forall>j<2. \<not> stopPressed envAB j" "\<forall>j<2. \<not> stopPressed envOk j"
    by (simp_all add: envAB_def envOk_def)
  have ok: "\<forall>j<2. isResolved (outcome envOk j)"
    by (simp add: envOk_def)
  have one: "length (filter (\<lambda>j. isResolved (outcome envAB j)) [0..<2]) = 1"
    by (simp add: upt_2 envAB_def)
  have each: "\<not> stopPressed envAB 0" "\<not> stopPressed envAB 1" "\<not> stopPressed envOk 0" "\<not> stopPressed envOk 1"
      "isResolved (outcome envOk 0)" "isResolved (outcome envOk 1)"
    by (simp_all add: envAB_def envOk_def)
  show ?thesis
    using n quiet ok one each modalAB_apiKey
      bulk_publish_count [OF modalAB_apiKey n _ quiet(1)]
      bulk_publish_count [OF modalAB_apiKey n _ quiet(2)]
    by simp
qed

text \<open>
  C6. A started run calls the generation service for the targets in the order in which
  they stand in the collection at the start (the first \<open>attempts\<close> of them), and its
  publishes are, in that same order, one for each target whose call resolved: each is the
  previous copy with that target's description filled in.
\<close>

theorem bulk_order:
  assumes "apiKey (localConfig m) \<noteq> []"
    and "ml = filter lacksDescription (links m)" and "ml \<noteq> []"
    and "n = attempts env (length ml)"
  shows "generations (newCalls m (handleBulkGenerate env True m)) =
           map (\<lambda>l. (title l, url l, localConfig m)) (take n ml) \<and>
         publishes (newCalls m (handleBulkGenerate env True m)) =
           snapshots (successes env ml n) (links m) \<and>
         map fst (successes env ml n) =
           map (\<lambda>j. ml ! j) (filter (\<lambda>j. isResolved (outcome env j)) [0..<n])"
proof -
  have ne: "filter lacksDescription (links m) \<noteq> []" using assms(2,3) by simp
  note nc = handleBulkGenerate_newCalls [OF assms(1) ne, of env]
  have le: "n \<le> length ml" using assms(4) by (simp add: attempts_le)
  have "map fst (successes env ml k) =
      map (\<lambda>j. ml ! j) (filter (\<lambda>j. isResolved (outcome env j)) [0..<k])" for k
    by (induction k) (simp_all add: successes_0 successes_Suc split: gen_result.split)
  then show ?thesis
    using le assms(2,4)
    by (simp add: nc generations_append generations_loopCalls publishes_append
        publishes_loopCalls)
qed

theorem bulk_order_witness:
  "apiKey (localConfig modalAB) \<noteq> [] \<and>
   filter lacksDescription (links modalAB) = [linkA, linkB] \<and>
   attempts envBA 2 = 2 \<and>
   generations (newCalls modalAB (handleBulkGenerate envBA True modalAB)) =
     [(''A'', ''http://a'', draftCfg), (''B'', ''http://b'', draftCfg)] \<and>
   publishes (newCalls modalAB (handleBulkGenerate envBA True modalAB)) =
     [[linkA, linkC, linkB\<lparr>description := Some ''dB''\<rparr>]]"
proof -
  have ml: "[linkA, linkB] = filter lacksDescription (links modalAB)"
    by (simp add: modalAB_missing)
  have ne: "[linkA, linkB] \<noteq> []" by simp
  have two: "attempts envBA 2 = 2"
    by (simp add: attempts_def upt_2 envBA_def)
  have len: "length [linkA, linkB] = 2" by simp
  have n: "2 = attempts envBA (length [linkA, linkB])"
    by (simp only: len two)
  note order = bulk_order [OF modalAB_apiKey ml ne n]
  have "successes envBA [linkA, linkB] 2 = [(linkB, ''dB'')]"
    by (simp add: successes_def upt_2 envBA_def)
  moreover have "snapshots [(linkB, ''dB'')] (links modalAB) =
      [[linkA, linkC, linkB\<lparr>description := Some ''dB''\<rparr>]]"
    by (simp add: fillDescription_def modalAB_def linkA_def linkB_def linkC_def)
  moreover have "localConfig modalAB = draftCfg"
    by (simp add: modalAB_def)
  moreover have "map (\<lambda>l. (title l, url l, draftCfg)) (take 2 [linkA, linkB]) =
      [(''A'', ''http://a'', draftCfg), (''B'', ''http://b'', draftCfg)]"
    by (simp add: linkA_def linkB_def)
  ultimately show ?thesis
    using order modalAB_apiKey two by (simp add: modalAB_missing)
qed

text \<open>
  C4. In a started run over a collection with distinct ids, a call that throws stops
  nothing: when stop is not pressed, all targets are attempted, whichever calls throw.
  And the collection the owner ends with has the length of the one at the start, and,
  position by position: a target whose call was made (its index is below \<open>n\<close>, the
  number of attempts) and resolved carries the generated description and is otherwise
  as before; a target whose call threw, or was never made, is as before, without
  description; an item that had a description is as before.
\<close>

theorem bulk_failure_isolated:
  assumes "apiKey (localConfig m) \<noteq> []"
    and "ml = filter lacksDescription (links m)" and "ml \<noteq> []"
    and "distinct (map id_link (links m))"
    and "n = attempts env (length ml)"
  shows "((\<forall>j<length ml. \<not> stopPressed env j) \<longrightarrow>
            generations (newCalls m (handleBulkGenerate env True m)) =
              map (\<lambda>l. (title l, url l, localConfig m)) ml) \<and>
         length (ownerLinks m (handleBulkGenerate env True m)) = length (links m) \<and>
         (\<forall>j<length ml. \<forall>p<length (links m). id_link (links m ! p) = id_link (ml ! j) \<longrightarrow>
            ownerLinks m (handleBulkGenerate env True m) ! p =
              (case outcome env j of
                 Resolves d \<Rightarrow>
                   if j < n then (links m ! p)\<lparr>description := Some d\<rparr> else links m ! p
               | Throws \<Rightarrow> links m ! p)) \<and>
         (\<forall>p<length (links m). \<not> lacksDescription (links m ! p) \<longrightarrow>
            ownerLinks m (handleBulkGenerate env True m) ! p = links m ! p)"
proof -
  have ne: "filter lacksDescription (links m) \<noteq> []" using assms(2,3) by simp
  have le: "n \<le> length ml" using assms(5) by (simp add: attempts_le)
  have all: "generations (newCalls m (handleBulkGenerate env True m)) =
      map (\<lambda>l. (title l, url l, localConfig m)) ml"
    if "\<forall>j<length ml. \<not> stopPressed env j"
  proof -
    have "attempts env (length ml) = length ml"
      using that by (rule attempts_no_stop)
    then show ?thesis
      using assms(2)
      by (simp add: handleBulkGenerate_newCalls [OF assms(1) ne] generations_append
          generations_loopCalls)
  qed
  have len: "length (ownerLinks m (handleBulkGenerate env True m)) = length (links m)"
    by (simp add: ownerLinks_started [OF assms(1) ne])
  have target: "ownerLinks m (handleBulkGenerate env True m) ! p =
      (case outcome env j of
         Resolves d \<Rightarrow> if j < n then (links m ! p)\<lparr>description := Some d\<rparr> else links m ! p
       | Throws \<Rightarrow> links m ! p)"
    if "j < length ml" and "p < length (links m)" and "id_link (links m ! p) = id_link (ml ! j)"
    for j p
    using target_item [OF assms(4,2) le that(1,3), of env] that(2) assms(2,5)
    by (simp add: ownerLinks_nth [OF assms(1) ne])
  have other: "ownerLinks m (handleBulkGenerate env True m) ! p = links m ! p"
    if "p < length (links m)" and "\<not> lacksDescription (links m ! p)" for p
  proof -
    have "links m ! p \<in> set (links m)" using that(1) by simp
    then show ?thesis
      using described_item [OF assms(4,2) le _ that(2), of env] that(1) assms(2,5)
      by (simp add: ownerLinks_nth [OF assms(1) ne])
  qed
  show ?thesis using all len target other by blast
qed

theorem bulk_failure_isolated_witness:
  "apiKey (localConfig modalAB) \<noteq> [] \<and>
   filter lacksDescription (links modalAB) = [linkA, linkB] \<and>
   distinct (map id_link (links modalAB)) \<and>
   attempts envBA 2 = 2 \<and>
   outcome envBA 0 = Throws \<and> outcome envBA 1 = Resolves ''dB'' \<and>
   generations (newCalls modalAB (handleBulkGenerate envBA True modalAB)) =
     [(''A'', ''http://a'', draftCfg), (''B'', ''http://b'', draftCfg)] \<and>
   ownerLinks modalAB (handleBulkGenerate envBA True modalAB) ! 0 = linkA \<and>
   ownerLinks modalAB (handleBulkGenerate envBA True modalAB) ! 1 = linkC \<and>
   ownerLinks modalAB (handleBulkGenerate envBA True modalAB) ! 2 =
     linkB\<lparr>description := Some ''dB''\<rparr>"
proof -
  let ?r = "handleBulkGenerate envBA True modalAB"
  have ml: "[linkA, linkB] = filter lacksDescription (links modalAB)"
    by (simp add: modalAB_missing)
  have ne: "[linkA, linkB] \<noteq> []" by simp
  have two: "attempts envBA 2 = 2"
    by (simp add: attempts_def upt_2 envBA_def)
  have len: "length [linkA, linkB] = 2" by simp
  have n: "2 = attempts envBA (length [linkA, linkB])"
    by (simp only: len two)
  have env: "outcome envBA 0 = Throws" "outcome envBA 1 = Resolves ''dB''"
    "\<not> stopPressed envBA 0" "\<not> stopPressed envBA 1"
    by (simp_all add: envBA_def)
  note isolated = bulk_failure_isolated [OF modalAB_apiKey ml ne modalAB_distinct n]
  have quiet: "\<forall>j<length [linkA, linkB]. \<not> stopPressed envBA j"
    using env(3,4) by (simp add: less_Suc_eq)
  have gens: "generations (newCalls modalAB ?r) =
      map (\<lambda>l. (title l, url l, localConfig modalAB)) [linkA, linkB]"
    using isolated quiet by blast
  have a: "ownerLinks modalAB ?r ! 0 =
      (case outcome envBA 0 of
         Resolves d \<Rightarrow> if 0 < (2::nat) then (links modalAB ! 0)\<lparr>description := Some d\<rparr>
                       else links modalAB ! 0
       | Throws \<Rightarrow> links modalAB ! 0)"
  proof -
    have "0 < length [linkA, linkB]" "0 < length (links modalAB)"
      "id_link (links modalAB ! 0) = id_link ([linkA, linkB] ! 0)"
      by (simp_all add: modalAB_links)
    then show ?thesis using isolated by blast
  qed
  have b: "ownerLinks modalAB ?r ! 2 =
      (case outcome envBA 1 of
         Resolves d \<Rightarrow> if 1 < (2::nat) then (links modalAB ! 2)\<lparr>description := Some d\<rparr>
                       else links modalAB ! 2
       | Throws \<Rightarrow> links modalAB ! 2)"
  proof -
    have "1 < length [linkA, linkB]" "2 < length (links modalAB)"
      "id_link (links modalAB ! 2) = id_link ([linkA, linkB] ! 1)"
      by (simp_all add: modalAB_links)
    then show ?thesis using isolated by blast
  qed
  have c: "ownerLinks modalAB ?r ! 1 = links modalAB ! 1"
  proof -
    have "1 < length (links modalAB)" "\<not> lacksDescription (links modalAB ! 1)"
      by (simp_all add: modalAB_links lacksDescription_def linkC_def)
    then show ?thesis using isolated by blast
  qed
  have draft: "localConfig modalAB = draftCfg" by (simp add: modalAB_def)
  have gens': "generations (newCalls modalAB ?r) =
      [(''A'', ''http://a'', draftCfg), (''B'', ''http://b'', draftCfg)]"
    using gens by (simp add: draft linkA_def linkB_def)
  have a': "ownerLinks modalAB ?r ! 0 = linkA"
    using a env by (simp add: modalAB_links)
  have b': "ownerLinks modalAB ?r ! 2 = linkB\<lparr>description := Some ''dB''\<rparr>"
    using b env by (simp add: modalAB_links)
  have c': "ownerLinks modalAB ?r ! 1 = linkC"
    using c by (simp add: modalAB_links)
  show ?thesis
    using gens' a' b' c' env(1,2) two modalAB_apiKey modalAB_distinct modalAB_missing
    by simp
qed

text \<open>
  C9. Filling in a description changes the working copy at one position only, and there
  only the description: when the ids of the copy are distinct and the target's id is
  that of the item at position \<open>p\<close>, the new copy is the old one with the item at \<open>p\<close>
  replaced by itself with the new description. And every collection a run publishes has
  the length of the collection at the start, the same ids in the same order, and is, but
  for the descriptions, the collection at the start.
\<close>

theorem fill_frame:
  "(distinct (map id_link cl) \<and> p < length cl \<and> id_link (cl ! p) = id_link link \<longrightarrow>
      fillDescription link desc cl = cl[p := (cl ! p)\<lparr>description := Some desc\<rparr>]) \<and>
   (\<forall>c \<in> set (publishes (newCalls m (handleBulkGenerate env confirmed m))).
      length c = length (links m) \<and>
      map id_link c = map id_link (links m) \<and>
      map (\<lambda>l. l\<lparr>description := None\<rparr>) c = map (\<lambda>l. l\<lparr>description := None\<rparr>) (links m))"
proof -
  have one: "fillDescription link desc cl = cl[p := (cl ! p)\<lparr>description := Some desc\<rparr>]"
    if d: "distinct (map id_link cl)" and p: "p < length cl"
      and same: "id_link (cl ! p) = id_link link"
  proof (rule nth_equalityI)
    show "length (fillDescription link desc cl) =
        length (cl[p := (cl ! p)\<lparr>description := Some desc\<rparr>])"
      by (simp add: fillDescription_def)
  next
    fix i
    assume "i < length (fillDescription link desc cl)"
    then have i: "i < length cl" by (simp add: fillDescription_def)
    show "fillDescription link desc cl ! i = cl[p := (cl ! p)\<lparr>description := Some desc\<rparr>] ! i"
    proof (cases "i = p")
      case True
      then show ?thesis using p same by (simp add: fillDescription_def)
    next
      case False
      then have "id_link (cl ! i) \<noteq> id_link (cl ! p)"
        using id_link_index [OF d i p] by blast
      then show ?thesis using False i same by (simp add: fillDescription_def)
    qed
  qed
  have pub: "length c = length (links m) \<and> map id_link c = map id_link (links m) \<and>
      map (\<lambda>l. l\<lparr>description := None\<rparr>) c = map (\<lambda>l. l\<lparr>description := None\<rparr>) (links m)"
    if c: "c \<in> set (publishes (newCalls m (handleBulkGenerate env confirmed m)))" for c
  proof -
    have "\<exists>xs. c \<in> set (snapshots xs (links m))"
      using c handleBulkGenerate_cases [of m env confirmed]
      by (auto simp: publishes_append publishes_loopCalls)
    then have e: "map (\<lambda>l. l\<lparr>description := None\<rparr>) c =
        map (\<lambda>l. l\<lparr>description := None\<rparr>) (links m)"
      by (auto dest: set_snapshots_erase)
    then have "map id_link (map (\<lambda>l. l\<lparr>description := None\<rparr>) c) =
        map id_link (map (\<lambda>l. l\<lparr>description := None\<rparr>) (links m))"
      by simp
    then have "map id_link c = map id_link (links m)"
      by (simp add: comp_def)
    moreover from this have "length c = length (links m)"
      by (rule map_eq_imp_length_eq)
    ultimately show ?thesis using e by simp
  qed
  show ?thesis using one pub by blast
qed

theorem fill_frame_witness:
  "distinct (map id_link [linkA, linkC, linkB]) \<and>
   2 < length [linkA, linkC, linkB] \<and>
   id_link ([linkA, linkC, linkB] ! 2) = id_link linkB \<and>
   fillDescription linkB ''dB'' [linkA, linkC, linkB] =
     [linkA, linkC, linkB\<lparr>description := Some ''dB''\<rparr>] \<and>
   [linkA, linkC, linkB\<lparr>description := Some ''dB''\<rparr>]
     \<in> set (publishes (newCalls modalAB (handleBulkGenerate envBA True modalAB))) \<and>
   length [linkA, linkC, linkB\<lparr>description := Some ''dB''\<rparr>] = length (links modalAB) \<and>
   map id_link [linkA, linkC, linkB\<lparr>description := Some ''dB''\<rparr>] =
     map id_link (links modalAB)"
proof -
  have d: "distinct (map id_link [linkA, linkC, linkB])"
    by (simp add: linkA_def linkB_def linkC_def)
  have p: "2 < length [linkA, linkC, linkB]" by simp
  have same: "id_link ([linkA, linkC, linkB] ! 2) = id_link linkB" by simp
  note frame = fill_frame [of "[linkA, linkC, linkB]" 2 linkB "''dB''" modalAB envBA True]
  have "fillDescription linkB ''dB'' [linkA, linkC, linkB] =
      [linkA, linkC, linkB][2 := ([linkA, linkC, linkB] ! 2)\<lparr>description := Some ''dB''\<rparr>]"
    using frame d p same by blast
  then have one: "fillDescription linkB ''dB'' [linkA, linkC, linkB] =
      [linkA, linkC, linkB\<lparr>description := Some ''dB''\<rparr>]"
    by simp
  have mem: "[linkA, linkC, linkB\<lparr>description := Some ''dB''\<rparr>]
      \<in> set (publishes (newCalls modalAB (handleBulkGenerate envBA True modalAB)))"
    by (simp add: publishes_BA)
  then have "length [linkA, linkC, linkB\<lparr>description := Some ''dB''\<rparr>] = length (links modalAB) \<and>
      map id_link [linkA, linkC, linkB\<lparr>description := Some ''dB''\<rparr>] =
        map id_link (links modalAB)"
    using frame by blast
  then show ?thesis using d p same one mem by blast
qed

section \<open>Stopping\<close>



section \<open>Progress after a call that throws\<close>

text \<open>
  C1. With targets \<open>[A, B]\<close>, the call for \<open>A\<close> resolving and the call for \<open>B\<close>
  throwing, the run ends with progress \<open>(1, 2)\<close>: \<open>setProgress\<close> stands inside the \<open>try\<close>
  block, after the call, so the attempt that throws does not advance the progress. And
  with the call for \<open>A\<close> throwing and the call for \<open>B\<close> resolving, the progress values
  set are \<open>(0, 2)\<close> and then \<open>(2, 2)\<close>: the value is the loop index plus one, a count of
  attempts, which the failed attempt did not report.
\<close>

theorem bulk_progress_after_throw:
  "progress (handleBulkGenerate envAB True modalAB) = \<lparr>current = 1, total_n = 2\<rparr> \<and>
   progress (handleBulkGenerate envAB True modalAB) \<noteq> \<lparr>current = 2, total_n = 2\<rparr> \<and>
   length (generations (newCalls modalAB (handleBulkGenerate envAB True modalAB))) = 2 \<and>
   map snd (progressLog 0 (newCalls modalAB (handleBulkGenerate envBA True modalAB))) =
     [\<lparr>current = 0, total_n = 2\<rparr>, \<lparr>current = 2, total_n = 2\<rparr>]"
  by (simp add: handleBulkGenerate_def bulk_loop.simps iteration_def Let_def modalAB_def
      envAB_def envBA_def linkA_def linkB_def linkC_def draftCfg_def lacksDescription_def
      fillDescription_def setIsProcessing_def setProgress_def logCall_def newCalls_def)

end
